theory Spec2Isabelle
  imports Complex_Main
begin

section \<open>Strings\<close>

text \<open>
  A Python \<^verbatim>\<open>str\<close> is a sequence of Unicode code points, and \<^verbatim>\<open>len\<close> counts code
  points. A character is modelled by its code point, a string by the list of them.
\<close>

type_synonym uchar = nat
type_synonym ustr = "uchar list"

definition ascii :: "string \<Rightarrow> ustr" where
  "ascii s = map (of_char :: char \<Rightarrow> nat) s"

text \<open>
  The characters that \<^verbatim>\<open>str.strip()\<close> removes and that \<^verbatim>\<open>\s\<close> matches in a \<^verbatim>\<open>str\<close>
  pattern (both use the Unicode whitespace test of the interpreter).
\<close>

definition is_space :: "uchar \<Rightarrow> bool" where
  "is_space c = (c \<in> {9, 10, 11, 12, 13, 28, 29, 30, 31, 32, 133, 160, 5760,
       8192, 8193, 8194, 8195, 8196, 8197, 8198, 8199, 8200, 8201, 8202,
       8232, 8233, 8239, 8287, 12288})"

definition strip :: "ustr \<Rightarrow> ustr" where
  "strip s = rev (dropWhile is_space (rev (dropWhile is_space s)))"

text \<open>\<^verbatim>\<open>re.sub(r"\s+", " ", s)\<close>: every maximal run of whitespace becomes one space.
  The flag says whether the previous character belonged to a run.\<close>

fun sub_ws :: "bool \<Rightarrow> ustr \<Rightarrow> ustr" where
  "sub_ws in_run [] = []"
| "sub_ws in_run (c # cs) =
     (if is_space c then (if in_run then sub_ws True cs else 32 # sub_ws True cs)
      else c # sub_ws False cs)"

definition collapse_ws :: "ustr \<Rightarrow> ustr" where
  "collapse_ws s = sub_ws False s"

text \<open>\<^verbatim>\<open>s.split(" ")\<close>: split at every single space; never the empty list.\<close>

fun split_sp :: "ustr \<Rightarrow> ustr list" where
  "split_sp [] = [[]]"
| "split_sp (c # cs) =
     (if c = 32 then [] # split_sp cs
      else (case split_sp cs of [] \<Rightarrow> [[c]] | w # ws \<Rightarrow> (c # w) # ws))"

section \<open>Font metrics\<close>

text \<open>
  The metrics come from the PDF library and are a parameter of the model. Sizes are
  Python ints; widths and coordinates are Python floats, idealised here as reals
  (rounding is not modelled).
\<close>

record 'f pdfmetrics =
  stringWidth :: "ustr \<Rightarrow> 'f \<Rightarrow> int \<Rightarrow> real"
  getAscent :: "'f \<Rightarrow> int \<Rightarrow> real"
  getDescent :: "'f \<Rightarrow> int \<Rightarrow> real"

definition text_width :: "'f pdfmetrics \<Rightarrow> 'f \<Rightarrow> int \<Rightarrow> ustr \<Rightarrow> real" where
  "text_width pm font_name sz text = stringWidth pm text font_name sz"

datatype error = IndexError

section \<open>Line wrapping\<close>

text \<open>One iteration of the \<^verbatim>\<open>for ch in word\<close> loop of \<^verbatim>\<open>break_long_word\<close> on
  the state \<open>(parts, buf)\<close>.\<close>

definition blw_step ::
  "'f pdfmetrics \<Rightarrow> 'f \<Rightarrow> int \<Rightarrow> real \<Rightarrow> ustr list \<times> ustr \<Rightarrow> uchar \<Rightarrow> ustr list \<times> ustr" where
  "blw_step pm font_name sz max_width st ch =
     (let parts = fst st; buf = snd st; test = buf @ [ch] in
      if text_width pm font_name sz test \<le> max_width then (parts, test)
      else if buf \<noteq> [] then (parts @ [buf], [ch])
      else (parts @ [[ch]], []))"

definition break_long_word ::
  "'f pdfmetrics \<Rightarrow> ustr \<Rightarrow> 'f \<Rightarrow> int \<Rightarrow> real \<Rightarrow> ustr list" where
  "break_long_word pm word font_name sz max_width =
     (let st = foldl (blw_step pm font_name sz max_width) ([], []) word in
      if snd st \<noteq> [] then fst st @ [snd st] else fst st)"

definition total_chars :: "ustr list \<Rightarrow> nat" where
  "total_chars ws = length (concat ws)"

text \<open>
  The \<^verbatim>\<open>while i < len(words)\<close> loop of \<^verbatim>\<open>wrap_lines\<close>. The words before index \<open>i\<close>
  are never read again, so the state keeps \<open>words[i:]\<close>, \<open>current\<close> and \<open>lines\<close>.
  The result is \<open>Inl IndexError\<close> when \<^verbatim>\<open>words[i]\<close> is read past the end after the
  splice, \<open>Inr None\<close> for \<^verbatim>\<open>return None\<close>, and \<open>Inr (Some (current, lines))\<close> when
  the loop ends.
\<close>

function wrap_loop ::
  "'f pdfmetrics \<Rightarrow> 'f \<Rightarrow> int \<Rightarrow> real \<Rightarrow> int \<Rightarrow> bool \<Rightarrow> ustr list \<Rightarrow> ustr \<Rightarrow> ustr list
     \<Rightarrow> error + (ustr \<times> ustr list) option" where
  "wrap_loop pm font_name sz max_width max_lines allow_word_break [] current lines =
     Inr (Some (current, lines))"
| "wrap_loop pm font_name sz max_width max_lines allow_word_break (w0 # rest) current lines =
     (if text_width pm font_name sz w0 > max_width \<and> \<not> allow_word_break then Inr None
      else
        (case (if text_width pm font_name sz w0 > max_width
               then break_long_word pm w0 font_name sz max_width @ rest
               else w0 # rest) of
           [] \<Rightarrow> Inl IndexError
         | w # rest' \<Rightarrow>
             (if text_width pm font_name sz
                   (if current \<noteq> [] then strip (current @ [32] @ w) else w) \<le> max_width
              then wrap_loop pm font_name sz max_width max_lines allow_word_break rest'
                     (if current \<noteq> [] then strip (current @ [32] @ w) else w) lines
              else if int (length (lines @ [current])) \<ge> max_lines then Inr None
              else wrap_loop pm font_name sz max_width max_lines allow_word_break
                     (w # rest') [] (lines @ [current]))))"
  by pat_completeness auto

lemma blw_foldl_concat:
  "concat (fst (foldl (blw_step pm f s mw) (parts, buf) word)) @
     snd (foldl (blw_step pm f s mw) (parts, buf) word) = concat parts @ buf @ word"
  by (induction word arbitrary: parts buf) (auto simp: blw_step_def Let_def)

lemma blw_foldl_nonempty:
  "[] \<notin> set parts \<Longrightarrow> [] \<notin> set (fst (foldl (blw_step pm f s mw) (parts, buf) word))"
  by (induction word arbitrary: parts buf) (auto simp: blw_step_def Let_def)

lemma concat_break_long_word: "concat (break_long_word pm w f s mw) = w"
  using blw_foldl_concat [of pm f s mw "[]" "[]" w]
  by (auto simp: break_long_word_def Let_def)

lemma break_long_word_nonempty: "[] \<notin> set (break_long_word pm w f s mw)"
  using blw_foldl_nonempty [of "[]" pm f s mw "[]" w]
  by (auto simp: break_long_word_def Let_def)

lemma total_chars_break_long_word:
  "total_chars (break_long_word pm w f s mw @ rest) = total_chars (w # rest)"
  by (simp add: total_chars_def concat_break_long_word)

lemma break_long_word_Cons_nonempty:
  "break_long_word pm w0 f s mw @ rest = w # rest' \<Longrightarrow> w = [] \<Longrightarrow>
     break_long_word pm w0 f s mw = [] \<and> rest = w # rest'"
  using break_long_word_nonempty [of pm w0 f s mw]
  by (cases "break_long_word pm w0 f s mw") auto

termination wrap_loop
proof (relation "measures
    [\<lambda>(pm, f, s, mw, ml, awb, ws, cur, lines). total_chars ws,
     \<lambda>(pm, f, s, mw, ml, awb, ws, cur, lines). nat (ml - int (length lines)),
     \<lambda>(pm, f, s, mw, ml, awb, ws, cur, lines). length ws]", goal_cases)
  case 1
  show ?case by simp
next
  case (2 pm f s mw ml awb w0 rest current lines w rest')
  let ?ws = "if mw < text_width pm f s w0 then break_long_word pm w0 f s mw @ rest else w0 # rest"
  have eq: "?ws = w # rest'" using 2 by simp
  have tc: "total_chars ?ws = total_chars (w0 # rest)"
    by (simp add: total_chars_break_long_word)
  have tc': "total_chars (w # rest') = total_chars (w0 # rest)" using tc eq by simp
  show ?case
  proof (cases "w = []")
    case False
    then have "total_chars rest' < total_chars (w0 # rest)"
      using tc' by (cases w) (simp_all add: total_chars_def)
    then show ?thesis by simp
  next
    case True
    have len: "length rest' < length (w0 # rest)"
    proof (cases "mw < text_width pm f s w0")
      case True
      with eq \<open>w = []\<close> have "rest = w # rest'"
        using break_long_word_Cons_nonempty [of pm w0 f s mw rest w rest'] by simp
      then show ?thesis by simp
    next
      case False
      with eq show ?thesis by auto
    qed
    have "total_chars rest' = total_chars (w0 # rest)"
      using tc' True by (simp add: total_chars_def)
    with len show ?thesis by simp
  qed
next
  case (3 pm f s mw ml awb w0 rest current lines w rest')
  let ?ws = "if mw < text_width pm f s w0 then break_long_word pm w0 f s mw @ rest else w0 # rest"
  have eq: "?ws = w # rest'" using 3 by simp
  have tc: "total_chars ?ws = total_chars (w0 # rest)"
    by (simp add: total_chars_break_long_word)
  have tc': "total_chars (w # rest') = total_chars (w0 # rest)" using tc eq by simp
  have "nat (ml - int (length (lines @ [current]))) < nat (ml - int (length lines))"
    using 3 by simp
  with tc' show ?case by simp
qed

declare wrap_loop.simps(2) [simp del]

text \<open>Names for the parts of one iteration: whether a line fits, the word list after
  the splice, and the candidate line \<^verbatim>\<open>test\<close>.\<close>

definition fits :: "'f pdfmetrics \<Rightarrow> 'f \<Rightarrow> int \<Rightarrow> real \<Rightarrow> ustr \<Rightarrow> bool" where
  "fits pm f s mw l = (text_width pm f s l \<le> mw)"

definition next_words :: "'f pdfmetrics \<Rightarrow> 'f \<Rightarrow> int \<Rightarrow> real \<Rightarrow> ustr \<Rightarrow> ustr list \<Rightarrow> ustr list" where
  "next_words pm f s mw w0 rest =
     (if text_width pm f s w0 > mw then break_long_word pm w0 f s mw @ rest else w0 # rest)"

definition join_word :: "ustr \<Rightarrow> ustr \<Rightarrow> ustr" where
  "join_word current w = (if current \<noteq> [] then strip (current @ [32] @ w) else w)"





text \<open>
  \<^verbatim>\<open>wrap_lines\<close>: normalise the text, split it at spaces, run the loop, push the last
  line and check the number of lines once more.
\<close>

definition wrap_lines ::
  "'f pdfmetrics \<Rightarrow> ustr \<Rightarrow> 'f \<Rightarrow> int \<Rightarrow> real \<Rightarrow> int \<Rightarrow> bool \<Rightarrow> error + ustr list option" where
  "wrap_lines pm text font_name sz max_width max_lines allow_word_break =
     (let text = collapse_ws (strip text) in
      if text = [] then Inr None
      else
        (case wrap_loop pm font_name sz max_width max_lines allow_word_break
                (split_sp text) [] [] of
           Inl e \<Rightarrow> Inl e
         | Inr None \<Rightarrow> Inr None
         | Inr (Some (current, lines)) \<Rightarrow>
             (let lines = (if current \<noteq> [] then lines @ [current] else lines) in
              if int (length lines) \<le> max_lines then Inr (Some lines) else Inr None)))"

section \<open>Font size fitters\<close>

text \<open>\<^verbatim>\<open>range(max_size, min_size - 1, -1)\<close>\<close>

definition range_desc :: "int \<Rightarrow> int \<Rightarrow> int list" where
  "range_desc max_size min_size = rev [min_size..max_size]"

text \<open>Python's \<^verbatim>\<open>x or d\<close> on an optional list: \<^verbatim>\<open>None\<close> and the empty list are falsy.\<close>

definition or_else :: "ustr list option \<Rightarrow> ustr list \<Rightarrow> ustr list" where
  "or_else r d = (case r of None \<Rightarrow> d | Some [] \<Rightarrow> d | Some (l # ls) \<Rightarrow> l # ls)"

text \<open>\<^verbatim>\<open>((text or "").strip()[:20] + "\<dots>").strip()\<close>; the marker is U+2026.\<close>

definition ellipsis_line :: "ustr \<Rightarrow> ustr" where
  "ellipsis_line text = strip (take 20 (strip text) @ [8230])"

text \<open>
  A block of statements either raises (\<open>Inl\<close>), returns a value (\<open>Inr (Some v)\<close>) or
  falls through to the next statement (\<open>Inr None\<close>). \<open>then_block\<close> is sequencing: the
  second block runs only when the first fell through.
\<close>

definition then_block :: "error + 'a option \<Rightarrow> error + 'a option \<Rightarrow> error + 'a option" where
  "then_block b1 b2 = (case b1 of Inl e \<Rightarrow> Inl e | Inr (Some v) \<Rightarrow> Inr (Some v) | Inr None \<Rightarrow> b2)"

text \<open>The \<^verbatim>\<open>for size in range(...)\<close> loop of \<^verbatim>\<open>fit_text\<close>.\<close>

fun fit_text_scan ::
  "'f pdfmetrics \<Rightarrow> ustr \<Rightarrow> 'f \<Rightarrow> real \<Rightarrow> int \<Rightarrow> bool \<Rightarrow> int list
     \<Rightarrow> error + (int \<times> ustr list) option" where
  "fit_text_scan pm text font_name max_width max_lines allow_word_break [] = Inr None"
| "fit_text_scan pm text font_name max_width max_lines allow_word_break (sz # szs) =
     (case wrap_lines pm text font_name sz max_width max_lines allow_word_break of
        Inl e \<Rightarrow> Inl e
      | Inr None \<Rightarrow> fit_text_scan pm text font_name max_width max_lines allow_word_break szs
      | Inr (Some []) \<Rightarrow> fit_text_scan pm text font_name max_width max_lines allow_word_break szs
      | Inr (Some (l # ls)) \<Rightarrow> Inr (Some (sz, l # ls)))"

text \<open>The three statements after the loop: re-wrap at \<open>min_size\<close>, or the truncated
  line, and return.\<close>

definition fit_text_fallback ::
  "'f pdfmetrics \<Rightarrow> ustr \<Rightarrow> 'f \<Rightarrow> int \<Rightarrow> real \<Rightarrow> int \<Rightarrow> bool
     \<Rightarrow> error + (int \<times> ustr list) option" where
  "fit_text_fallback pm text font_name min_size max_width max_lines allow_word_break =
     (case wrap_lines pm text font_name min_size max_width max_lines allow_word_break of
        Inl e \<Rightarrow> Inl e
      | Inr r \<Rightarrow> Inr (Some (min_size, or_else r [ellipsis_line text])))"

text \<open>
  \<^verbatim>\<open>fit_text\<close>, with its whole body: the loop, the fallback, and the second copy of
  the fallback that follows the \<^verbatim>\<open>return\<close> (it calls \<^verbatim>\<open>wrap_lines\<close> with the default
  \<^verbatim>\<open>allow_word_break=True\<close>). \<open>Inr None\<close> would be a call that falls off the end.
\<close>

definition fit_text ::
  "'f pdfmetrics \<Rightarrow> ustr \<Rightarrow> 'f \<Rightarrow> int \<Rightarrow> int \<Rightarrow> real \<Rightarrow> int \<Rightarrow> bool
     \<Rightarrow> error + (int \<times> ustr list) option" where
  "fit_text pm text font_name max_size min_size max_width max_lines allow_word_break =
     then_block
       (fit_text_scan pm text font_name max_width max_lines allow_word_break
          (range_desc max_size min_size))
       (then_block
          (fit_text_fallback pm text font_name min_size max_width max_lines allow_word_break)
          (fit_text_fallback pm text font_name min_size max_width max_lines True))"

text \<open>The same body with the trailing copy removed.\<close>

definition fit_text_no_dup ::
  "'f pdfmetrics \<Rightarrow> ustr \<Rightarrow> 'f \<Rightarrow> int \<Rightarrow> int \<Rightarrow> real \<Rightarrow> int \<Rightarrow> bool
     \<Rightarrow> error + (int \<times> ustr list) option" where
  "fit_text_no_dup pm text font_name max_size min_size max_width max_lines allow_word_break =
     then_block
       (fit_text_scan pm text font_name max_width max_lines allow_word_break
          (range_desc max_size min_size))
       (fit_text_fallback pm text font_name min_size max_width max_lines allow_word_break)"

text \<open>\<^verbatim>\<open>needed_h = size * line_height * len(lines)\<close>\<close>

definition needed_h :: "int \<Rightarrow> real \<Rightarrow> ustr list \<Rightarrow> real" where
  "needed_h sz line_height lines = real_of_int sz * line_height * real (length lines)"

fun fit_text_in_box_scan ::
  "'f pdfmetrics \<Rightarrow> ustr \<Rightarrow> 'f \<Rightarrow> real \<Rightarrow> int \<Rightarrow> real \<Rightarrow> real \<Rightarrow> bool \<Rightarrow> int list
     \<Rightarrow> error + (int \<times> ustr list) option" where
  "fit_text_in_box_scan pm text font_name max_width max_lines max_height line_height
       allow_word_break [] = Inr None"
| "fit_text_in_box_scan pm text font_name max_width max_lines max_height line_height
       allow_word_break (sz # szs) =
     (case wrap_lines pm text font_name sz max_width max_lines allow_word_break of
        Inl e \<Rightarrow> Inl e
      | Inr None \<Rightarrow> fit_text_in_box_scan pm text font_name max_width max_lines max_height
                      line_height allow_word_break szs
      | Inr (Some []) \<Rightarrow> fit_text_in_box_scan pm text font_name max_width max_lines max_height
                      line_height allow_word_break szs
      | Inr (Some (l # ls)) \<Rightarrow>
          (if needed_h sz line_height (l # ls) \<le> max_height then Inr (Some (sz, l # ls))
           else fit_text_in_box_scan pm text font_name max_width max_lines max_height
                  line_height allow_word_break szs))"

definition fit_text_in_box ::
  "'f pdfmetrics \<Rightarrow> ustr \<Rightarrow> 'f \<Rightarrow> int \<Rightarrow> int \<Rightarrow> real \<Rightarrow> int \<Rightarrow> real \<Rightarrow> real \<Rightarrow> bool
     \<Rightarrow> error + (int \<times> ustr list)" where
  "fit_text_in_box pm text font_name max_size min_size max_width max_lines max_height
       line_height allow_word_break =
     (case fit_text_in_box_scan pm text font_name max_width max_lines max_height line_height
             allow_word_break (range_desc max_size min_size) of
        Inl e \<Rightarrow> Inl e
      | Inr (Some r) \<Rightarrow> Inr r
      | Inr None \<Rightarrow>
          (case wrap_lines pm text font_name min_size max_width max_lines allow_word_break of
             Inl e \<Rightarrow> Inl e
           | Inr r \<Rightarrow> Inr (min_size, or_else r [ellipsis_line text])))"

section \<open>The fitter anchored above a guide line\<close>

text \<open>\<^verbatim>\<open>descent = abs(pdfmetrics.getDescent(font_name, size))\<close>\<close>

definition descent_of :: "'f pdfmetrics \<Rightarrow> 'f \<Rightarrow> int \<Rightarrow> real" where
  "descent_of pm font_name sz = \<bar>getDescent pm font_name sz\<bar>"

text \<open>\<^verbatim>\<open>top_glyph\<close> for a given baseline of the last line:
  \<^verbatim>\<open>last_baseline + (len(lines) - 1) * (size * line_height) + ascent\<close>.\<close>

definition top_glyph_of ::
  "'f pdfmetrics \<Rightarrow> 'f \<Rightarrow> int \<Rightarrow> real \<Rightarrow> ustr list \<Rightarrow> real \<Rightarrow> real" where
  "top_glyph_of pm font_name sz line_height lines last_baseline =
     last_baseline + real_of_int (int (length lines) - 1) * (real_of_int sz * line_height)
       + getAscent pm font_name sz"

fun fit_text_above_line_scan ::
  "'f pdfmetrics \<Rightarrow> ustr \<Rightarrow> 'f \<Rightarrow> real \<Rightarrow> int \<Rightarrow> real \<Rightarrow> real \<Rightarrow> real \<Rightarrow> bool \<Rightarrow> int list
     \<Rightarrow> error + (int \<times> ustr list \<times> real) option" where
  "fit_text_above_line_scan pm text font_name max_width max_lines y_top y_min_glyph line_height
       allow_word_break [] = Inr None"
| "fit_text_above_line_scan pm text font_name max_width max_lines y_top y_min_glyph line_height
       allow_word_break (sz # szs) =
     (case wrap_lines pm text font_name sz max_width max_lines allow_word_break of
        Inl e \<Rightarrow> Inl e
      | Inr None \<Rightarrow> fit_text_above_line_scan pm text font_name max_width max_lines y_top
                      y_min_glyph line_height allow_word_break szs
      | Inr (Some []) \<Rightarrow> fit_text_above_line_scan pm text font_name max_width max_lines y_top
                      y_min_glyph line_height allow_word_break szs
      | Inr (Some (l # ls)) \<Rightarrow>
          (if top_glyph_of pm font_name sz line_height (l # ls)
                (y_min_glyph + descent_of pm font_name sz) \<le> y_top
           then Inr (Some (sz, l # ls, y_min_glyph + descent_of pm font_name sz))
           else fit_text_above_line_scan pm text font_name max_width max_lines y_top
                  y_min_glyph line_height allow_word_break szs))"

definition fit_text_above_line ::
  "'f pdfmetrics \<Rightarrow> ustr \<Rightarrow> 'f \<Rightarrow> int \<Rightarrow> int \<Rightarrow> real \<Rightarrow> int \<Rightarrow> real \<Rightarrow> real \<Rightarrow> real \<Rightarrow> real
     \<Rightarrow> bool \<Rightarrow> error + (int \<times> ustr list \<times> real)" where
  "fit_text_above_line pm text0 font_name max_size min_size max_width max_lines
       y_top y_line clearance line_height allow_word_break =
     (let text = collapse_ws (strip text0) in
      if text = [] then Inr (min_size, [[]], y_line + clearance)
      else
        (case fit_text_above_line_scan pm text font_name max_width max_lines y_top
                (y_line + clearance) line_height allow_word_break
                (range_desc max_size min_size) of
           Inl e \<Rightarrow> Inl e
         | Inr (Some r) \<Rightarrow> Inr r
         | Inr None \<Rightarrow>
             (case wrap_lines pm text font_name min_size max_width max_lines
                     allow_word_break of
                Inl e \<Rightarrow> Inl e
              | Inr r \<Rightarrow>
                  (let lines = or_else r [text];
                       last_baseline = (y_line + clearance) + descent_of pm font_name min_size;
                       top_glyph = top_glyph_of pm font_name min_size line_height lines
                                     last_baseline
                   in if top_glyph > y_top
                      then Inr (min_size, lines, last_baseline - (top_glyph - y_top))
                      else Inr (min_size, lines, last_baseline)))))"

text \<open>The baseline that the fallback of \<^verbatim>\<open>fit_text_above_line\<close> returns for given lines.\<close>

definition clamped_baseline ::
  "'f pdfmetrics \<Rightarrow> 'f \<Rightarrow> int \<Rightarrow> real \<Rightarrow> ustr list \<Rightarrow> real \<Rightarrow> real \<Rightarrow> real" where
  "clamped_baseline pm f s lh ls y_min y_top =
     (if top_glyph_of pm f s lh ls (y_min + descent_of pm f s) > y_top
      then y_min + descent_of pm f s - (top_glyph_of pm f s lh ls (y_min + descent_of pm f s) - y_top)
      else y_min + descent_of pm f s)"

section \<open>Price tiers\<close>

definition category_from_price :: "int \<Rightarrow> ustr" where
  "category_from_price price =
     (if price \<le> 20 then ascii ''A''
      else if price \<le> 35 then ascii ''A+''
      else if price \<le> 55 then ascii ''A++''
      else [1055, 1056, 1045, 1052, 1048, 1059, 1052])"

section \<open>Access list\<close>

text \<open>
  \<^verbatim>\<open>AccessManager\<close>: the two sets, and the content of the JSON file that \<^verbatim>\<open>_save\<close>
  writes (the sorted list of the allowed ids).
\<close>

record access_manager =
  admin_ids :: "int set"
  allowed_ids :: "int set"
  saved_ids :: "int list"

definition save :: "access_manager \<Rightarrow> access_manager" where
  "save am = am\<lparr>saved_ids := sorted_list_of_set (allowed_ids am)\<rparr>"

definition is_admin :: "access_manager \<Rightarrow> int \<Rightarrow> bool" where
  "is_admin am user_id = (user_id \<in> admin_ids am)"

definition is_allowed :: "access_manager \<Rightarrow> int \<Rightarrow> bool" where
  "is_allowed am user_id = (is_admin am user_id \<or> user_id \<in> allowed_ids am)"

definition add_user :: "access_manager \<Rightarrow> int \<Rightarrow> access_manager" where
  "add_user am user_id =
     (if user_id \<notin> admin_ids am
      then save (am\<lparr>allowed_ids := insert user_id (allowed_ids am)\<rparr>)
      else am)"

definition del_user :: "access_manager \<Rightarrow> int \<Rightarrow> access_manager" where
  "del_user am user_id =
     (if user_id \<in> allowed_ids am
      then save (am\<lparr>allowed_ids := allowed_ids am - {user_id}\<rparr>)
      else am)"

datatype access_op = Add_user int | Del_user int

fun apply_access_op :: "access_manager \<Rightarrow> access_op \<Rightarrow> access_manager" where
  "apply_access_op am (Add_user u) = add_user am u"
| "apply_access_op am (Del_user u) = del_user am u"

definition run_access_ops :: "access_manager \<Rightarrow> access_op list \<Rightarrow> access_manager" where
  "run_access_ops am ops = foldl apply_access_op am ops"

section \<open>The tips conversation\<close>

text \<open>
  The per-user conversation context of the bot framework: the current state and the data
  stored under the keys \<^verbatim>\<open>tips_name\<close> and \<^verbatim>\<open>tips_goal\<close>.
\<close>

datatype fsm_state = TipsFSM_name | TipsFSM_goal | TipsFSM_link
  | WaitFilesFSM_wait_tea_xlsx | WaitFilesFSM_wait_products_xlsx

record fsm_context =
  state :: "fsm_state option"
  data_tips_name :: "ustr option"
  data_tips_goal :: "ustr option"


















text \<open>What is stored under the two keys was validated when it was stored.\<close>

definition ctx_ok :: "fsm_context \<Rightarrow> bool" where
  "ctx_ok ctx =
     ((case data_tips_name ctx of None \<Rightarrow> True | Some n \<Rightarrow> 1 \<le> length n \<and> length n \<le> 40) \<and>
      (case data_tips_goal ctx of None \<Rightarrow> True | Some g \<Rightarrow> 1 \<le> length g \<and> length g \<le> 80))"




section \<open>A concrete font\<close>

text \<open>
  Metrics of the shape the PDF library computes for a TrueType font: the width of a
  string is the sum of the advance widths of its characters times the size. Here
  \<open>b\<close> is three units wide and every other character one; the ascent is the size and the
  descent a quarter of it (negative, as the library reports it).
\<close>

definition demo_char_width :: "uchar \<Rightarrow> real" where
  "demo_char_width c = (if c = 98 then 3 else 1)"

definition demo_metrics :: "string pdfmetrics" where
  "demo_metrics =
     \<lparr>stringWidth = (\<lambda>text font_name sz. real_of_int sz * sum_list (map demo_char_width text)),
      getAscent = (\<lambda>font_name sz. real_of_int sz),
      getDescent = (\<lambda>font_name sz. - (real_of_int sz / 4))\<rparr>"

section \<open>Properties of the line wrapper\<close>

subsection \<open>Words of a normalised text\<close>

lemma is_space_32: "is_space 32"
  by (simp add: is_space_def)

lemma split_sp_nonempty: "split_sp s \<noteq> []"
  by (induction s) (auto split: list.splits)

lemma split_sub_ws:
  "s \<noteq> [] \<Longrightarrow> \<not> is_space (last s) \<Longrightarrow>
     [] \<notin> set (tl (split_sp (sub_ws b s))) \<and>
     (hd (split_sp (sub_ws b s)) = [] \<longleftrightarrow> is_space (hd s) \<and> \<not> b)"
proof (induction s arbitrary: b)
  case Nil
  then show ?case by simp
next
  case (Cons c cs)
  show ?case
  proof (cases "cs = []")
    case True
    with Cons.prems have "\<not> is_space c" by simp
    then have "c \<noteq> 32" using is_space_32 by auto
    with True \<open>\<not> is_space c\<close> show ?thesis by simp
  next
    case False
    with Cons.prems have l: "\<not> is_space (last cs)" by simp
    note IH = Cons.IH [OF False l]
    show ?thesis
    proof (cases "is_space c")
      case True
      show ?thesis
      proof (cases b)
        case True
        with \<open>is_space c\<close> IH [of True] show ?thesis by simp
      next
        case False
        have ne: "split_sp (sub_ws True cs) \<noteq> []" by (rule split_sp_nonempty)
        from IH [of True] ne have "[] \<notin> set (split_sp (sub_ws True cs))"
          by (cases "split_sp (sub_ws True cs)") auto
        with False \<open>is_space c\<close> show ?thesis by simp
      qed
    next
      case nsp: False
      then have "c \<noteq> 32" using is_space_32 by auto
      have ne: "split_sp (sub_ws False cs) \<noteq> []" by (rule split_sp_nonempty)
      with nsp \<open>c \<noteq> 32\<close> IH [of False] show ?thesis
        by (cases "split_sp (sub_ws False cs)") auto
    qed
  qed
qed

lemma strip_ends:
  assumes "strip s \<noteq> []"
  shows "\<not> is_space (hd (strip s))" and "\<not> is_space (last (strip s))"
proof -
  let ?d = "dropWhile is_space s"
  let ?r = "dropWhile is_space (rev ?d)"
  have r: "?r \<noteq> []" using assms by (simp add: strip_def)
  then have "rev ?d \<noteq> []" by (metis dropWhile.simps(1))
  then have d: "?d \<noteq> []" by simp
  have "last (strip s) = hd ?r" using r by (simp add: strip_def last_rev)
  moreover have "\<not> is_space (hd ?r)" using r hd_dropWhile by blast
  ultimately show "\<not> is_space (last (strip s))" by simp
  have "hd (strip s) = last ?r" using r by (simp add: strip_def hd_rev)
  also have "\<dots> = last (rev ?d)"
    using r by (metis last_appendR takeWhile_dropWhile_id)
  also have "\<dots> = hd ?d" using d by (simp add: last_rev)
  finally have "hd (strip s) = hd ?d" .
  moreover have "\<not> is_space (hd ?d)" using d hd_dropWhile by blast
  ultimately show "\<not> is_space (hd (strip s))" by simp
qed

lemma sub_ws_Nil: "sub_ws b s = [] \<Longrightarrow> \<not> b \<Longrightarrow> s = []"
  by (cases s) (auto split: if_splits)

lemma words_nonempty:
  assumes "collapse_ws (strip text) \<noteq> []"
  shows "[] \<notin> set (split_sp (collapse_ws (strip text)))"
proof -
  have ne: "strip text \<noteq> []" using assms by (auto simp: collapse_ws_def)
  from split_sub_ws [OF ne strip_ends(2) [OF ne], of False] strip_ends(1) [OF ne]
  have "[] \<notin> set (tl (split_sp (collapse_ws (strip text))))"
    and "hd (split_sp (collapse_ws (strip text))) \<noteq> []"
    by (simp_all add: collapse_ws_def)
  then show ?thesis
    using split_sp_nonempty [of "collapse_ws (strip text)"]
    by (cases "split_sp (collapse_ws (strip text))") auto
qed

subsection \<open>The pieces of a broken word\<close>

lemma blw_foldl_pieces:
  "\<forall>p\<in>set parts. fits pm f s mw p \<or> length p = 1 \<Longrightarrow>
   buf = [] \<or> fits pm f s mw buf \<or> length buf = 1 \<Longrightarrow>
   (\<forall>p\<in>set (fst (foldl (blw_step pm f s mw) (parts, buf) word)). fits pm f s mw p \<or> length p = 1)
   \<and> (snd (foldl (blw_step pm f s mw) (parts, buf) word) = [] \<or>
      fits pm f s mw (snd (foldl (blw_step pm f s mw) (parts, buf) word)) \<or>
      length (snd (foldl (blw_step pm f s mw) (parts, buf) word)) = 1)"
proof (induction word arbitrary: parts buf)
  case Nil
  then show ?case by simp
next
  case (Cons c cs)
  obtain parts' buf' where st: "blw_step pm f s mw (parts, buf) c = (parts', buf')"
    by (cases "blw_step pm f s mw (parts, buf) c")
  have "(\<forall>p\<in>set parts'. fits pm f s mw p \<or> length p = 1) \<and>
        (buf' = [] \<or> fits pm f s mw buf' \<or> length buf' = 1)"
    using st Cons.prems
    by (auto simp: blw_step_def Let_def fits_def split: if_splits)
  then show ?case
    using Cons.IH [of parts' buf'] by (simp add: st)
qed

lemma break_long_word_pieces:
  "p \<in> set (break_long_word pm w f s mw) \<Longrightarrow> fits pm f s mw p \<or> length p = 1"
  using blw_foldl_pieces [of "[]" pm f s mw "[]" w]
  by (auto simp: break_long_word_def Let_def split: if_splits)

lemma break_long_word_single: "break_long_word pm [c] f s mw = [[c]]"
  by (simp add: break_long_word_def blw_step_def Let_def)

lemma break_long_word_not_Nil: "w \<noteq> [] \<Longrightarrow> break_long_word pm w f s mw \<noteq> []"
  using concat_break_long_word [of pm w f s mw] by auto

subsection \<open>The wrapping loop\<close>

lemma wrap_loop_Cons:
  "wrap_loop pm f s mw ml awb (w0 # rest) cur lines =
     (if text_width pm f s w0 > mw \<and> \<not> awb then Inr None
      else (case next_words pm f s mw w0 rest of
              [] \<Rightarrow> Inl IndexError
            | w # rest' \<Rightarrow>
                if fits pm f s mw (join_word cur w) then wrap_loop pm f s mw ml awb rest' (join_word cur w) lines
                else if int (length lines) + 1 \<ge> ml then Inr None
                else wrap_loop pm f s mw ml awb (w # rest') [] (lines @ [cur])))"
  by (auto simp: wrap_loop.simps next_words_def join_word_def fits_def split: list.splits)

lemma wrap_loop_induct [consumes 0, case_names Nil Cons]:
  assumes "\<And>cur lines. P [] cur lines"
    and "\<And>w0 rest cur lines.
          (\<And>w rest'. \<not> (text_width pm f s w0 > mw \<and> \<not> awb) \<Longrightarrow> next_words pm f s mw w0 rest = w # rest' \<Longrightarrow>
              fits pm f s mw (join_word cur w) \<Longrightarrow> P rest' (join_word cur w) lines) \<Longrightarrow>
          (\<And>w rest'. \<not> (text_width pm f s w0 > mw \<and> \<not> awb) \<Longrightarrow> next_words pm f s mw w0 rest = w # rest' \<Longrightarrow>
              \<not> fits pm f s mw (join_word cur w) \<Longrightarrow> \<not> int (length lines) + 1 \<ge> ml \<Longrightarrow>
              P (w # rest') [] (lines @ [cur])) \<Longrightarrow>
          P (w0 # rest) cur lines"
  shows "P ws cur lines"
proof -
  have "P ws cur lines"
    if "pm' = pm" "f' = f" "s' = s" "mw' = mw" "ml' = ml" "awb' = awb" for pm' f' s' mw' ml' awb'
    using that
  proof (induction pm' f' s' mw' ml' awb' ws cur lines rule: wrap_loop.induct)
    case (1 pm f s mw ml awb cur lines)
    then show ?case using assms(1) by simp
  next
    case (2 pm' f' s' mw' ml' awb' w0 rest cur lines)
    show ?case
    proof (rule assms(2))
      fix w rest'
      assume a: "\<not> (text_width pm f s w0 > mw \<and> \<not> awb)" "next_words pm f s mw w0 rest = w # rest'"
        "fits pm f s mw (join_word cur w)"
      show "P rest' (join_word cur w) lines"
        using 2(1) [of w rest'] a 2(3-)
        by (auto simp: next_words_def join_word_def fits_def split: if_splits)
    next
      fix w rest'
      assume a: "\<not> (text_width pm f s w0 > mw \<and> \<not> awb)" "next_words pm f s mw w0 rest = w # rest'"
        "\<not> fits pm f s mw (join_word cur w)" "\<not> int (length lines) + 1 \<ge> ml"
      show "P (w # rest') [] (lines @ [cur])"
        using 2(2) [of w rest'] a 2(3-)
        by (auto simp: next_words_def join_word_def fits_def split: if_splits)
    qed
  qed
  then show ?thesis by simp
qed

lemma next_words_nonempty:
  "[] \<notin> set (w0 # rest) \<Longrightarrow> next_words pm f s mw w0 rest \<noteq> [] \<and> [] \<notin> set (next_words pm f s mw w0 rest)"
  using break_long_word_nonempty [of pm w0 f s mw] break_long_word_not_Nil [of w0 pm f s mw]
  by (auto simp: next_words_def)

lemma wrap_loop_no_raise:
  "[] \<notin> set ws \<Longrightarrow> wrap_loop pm f s mw ml awb ws cur lines \<noteq> Inl e"
proof (induction ws cur lines rule: wrap_loop_induct [where pm = pm and f = f and s = s and mw = mw and ml = ml and awb = awb])
  case (Nil cur lines)
  then show ?case by simp
next
  case (Cons w0 rest cur lines)
  from next_words_nonempty [OF Cons.prems, of pm f s mw]
  obtain w rest' where nw: "next_words pm f s mw w0 rest = w # rest'" and ne: "[] \<notin> set (w # rest')"
    by (cases "next_words pm f s mw w0 rest") auto
  show ?case
    using Cons.IH(1) [OF _ nw] Cons.IH(2) [OF _ nw] ne
    by (auto simp: wrap_loop_Cons nw)
qed

lemma wrap_lines_no_raise: "wrap_lines pm text f s mw ml awb \<noteq> Inl e"
  using wrap_loop_no_raise [OF words_nonempty, of "text" pm f s mw ml awb "[]" "[]" e]
  by (auto simp: wrap_lines_def Let_def split: sum.splits option.splits if_splits)

lemma wrap_loop_stuck:
  "\<not> fits pm f s mw [c] \<Longrightarrow> wrap_loop pm f s mw ml awb ([c] # rest) [] lines = Inr None"
proof (induction "nat (ml - int (length lines))" arbitrary: lines rule: less_induct)
  case less
  have nw: "next_words pm f s mw [c] rest = [c] # rest"
    using less.prems by (simp add: next_words_def fits_def break_long_word_single)
  show ?case
  proof (cases "int (length lines) + 1 \<ge> ml")
    case True
    then show ?thesis using less.prems by (simp add: wrap_loop_Cons nw join_word_def)
  next
    case False
    then have "nat (ml - int (length (lines @ [[]]))) < nat (ml - int (length lines))" by simp
    from less.hyps [OF this less.prems] False less.prems
    show ?thesis by (simp add: wrap_loop_Cons nw join_word_def)
  qed
qed

lemma next_words_head:
  assumes "[] \<notin> set (w0 # rest)" and "next_words pm f s mw w0 rest = w # rest'"
  shows "fits pm f s mw w \<or> (\<exists>c. w = [c])"
proof (cases "text_width pm f s w0 > mw")
  case True
  with assms have eq: "break_long_word pm w0 f s mw @ rest = w # rest'"
    by (simp add: next_words_def)
  from assms(1) have "break_long_word pm w0 f s mw \<noteq> []"
    using break_long_word_not_Nil [of w0 pm f s mw] by auto
  with eq have "w \<in> set (break_long_word pm w0 f s mw)"
    by (cases "break_long_word pm w0 f s mw") auto
  from break_long_word_pieces [OF this] show ?thesis
    by (auto simp: length_Suc_conv)
next
  case False
  with assms show ?thesis by (simp add: next_words_def fits_def)
qed

lemma wrap_loop_lines_fit:
  "wrap_loop pm f s mw ml awb ws cur lines = Inr (Some (cur', lines')) \<Longrightarrow> [] \<notin> set ws \<Longrightarrow>
   \<forall>l\<in>set lines. fits pm f s mw l \<Longrightarrow> cur = [] \<or> fits pm f s mw cur \<Longrightarrow>
   (\<forall>l\<in>set lines'. fits pm f s mw l) \<and> (cur' = [] \<or> fits pm f s mw cur')"
proof (induction ws cur lines rule: wrap_loop_induct [where pm = pm and f = f and s = s and mw = mw and ml = ml and awb = awb])
  case (Nil cur lines)
  then show ?case by simp
next
  case (Cons w0 rest cur lines)
  from next_words_nonempty [OF Cons.prems(2), of pm f s mw]
  obtain w rest' where nw: "next_words pm f s mw w0 rest = w # rest'" and ne: "[] \<notin> set (w # rest')"
    by (cases "next_words pm f s mw w0 rest") auto
  have go: "\<not> (text_width pm f s w0 > mw \<and> \<not> awb)"
    using Cons.prems(1) by (auto simp: wrap_loop_Cons split: if_splits)
  show ?case
  proof (cases "fits pm f s mw (join_word cur w)")
    case True
    with Cons.prems(1) go have "wrap_loop pm f s mw ml awb rest' (join_word cur w) lines = Inr (Some (cur', lines'))"
      by (simp add: wrap_loop_Cons nw)
    from Cons.IH(1) [OF go nw True this] ne Cons.prems(3) True show ?thesis by simp
  next
    case False
    with Cons.prems(1) go have room: "\<not> int (length lines) + 1 \<ge> ml"
      and run: "wrap_loop pm f s mw ml awb (w # rest') [] (lines @ [cur]) = Inr (Some (cur', lines'))"
      by (auto simp: wrap_loop_Cons nw split: if_splits)
    have "fits pm f s mw cur"
    proof (rule ccontr)
      assume nf: "\<not> fits pm f s mw cur"
      with Cons.prems(4) have c: "cur = []" by simp
      with False have "\<not> fits pm f s mw w" by (simp add: join_word_def)
      with next_words_head [OF Cons.prems(2) nw] obtain c where "w = [c]" by auto
      with \<open>\<not> fits pm f s mw w\<close> wrap_loop_stuck [of pm f s mw c ml awb rest' "lines @ [cur]"] run
      show False by simp
    qed
    with Cons.IH(2) [OF go nw False room run ne] Cons.prems(3) show ?thesis by simp
  qed
qed




section \<open>Properties of the fitters\<close>

lemma set_range_desc: "set (range_desc max_size min_size) = {min_size..max_size}"
  by (simp add: range_desc_def)

lemma or_else_nonempty: "d \<noteq> [] \<Longrightarrow> or_else r d \<noteq> []"
  by (auto simp: or_else_def split: option.splits list.splits)


subsection \<open>The scan of fit_text\<close>

lemma fit_text_scan_no_raise: "fit_text_scan pm t f mw ml awb szs \<noteq> Inl e"
  by (induction szs) (auto simp: wrap_lines_no_raise split: sum.splits option.splits list.splits)

lemma fit_text_scan_Some:
  "fit_text_scan pm t f mw ml awb szs = Inr (Some (sz, ls)) \<Longrightarrow>
     sz \<in> set szs \<and> wrap_lines pm t f sz mw ml awb = Inr (Some ls) \<and> ls \<noteq> []"
  by (induction szs) (auto split: sum.splits option.splits list.splits)


subsection \<open>The scan of fit_text_in_box\<close>

lemma fit_text_in_box_scan_no_raise: "fit_text_in_box_scan pm t f mw ml mh lh awb szs \<noteq> Inl e"
  by (induction szs) (auto simp: wrap_lines_no_raise split: sum.splits option.splits list.splits)

lemma fit_text_in_box_scan_Some:
  "fit_text_in_box_scan pm t f mw ml mh lh awb szs = Inr (Some (sz, ls)) \<Longrightarrow>
     sz \<in> set szs \<and> wrap_lines pm t f sz mw ml awb = Inr (Some ls) \<and> ls \<noteq> [] \<and>
     needed_h sz lh ls \<le> mh"
  by (induction szs) (auto split: sum.splits option.splits list.splits if_splits)


subsection \<open>The scan of fit_text_above_line\<close>

lemma fit_text_above_line_scan_no_raise:
  "fit_text_above_line_scan pm t f mw ml y_top y_min lh awb szs \<noteq> Inl e"
  by (induction szs) (auto simp: wrap_lines_no_raise split: sum.splits option.splits list.splits)

lemma fit_text_above_line_scan_Some:
  "fit_text_above_line_scan pm t f mw ml y_top y_min lh awb szs = Inr (Some (sz, ls, lb)) \<Longrightarrow>
     sz \<in> set szs \<and> wrap_lines pm t f sz mw ml awb = Inr (Some ls) \<and> ls \<noteq> [] \<and>
     lb = y_min + descent_of pm f sz \<and> top_glyph_of pm f sz lh ls lb \<le> y_top"
  by (induction szs) (auto split: sum.splits option.splits list.splits if_splits)

subsection \<open>The result of each fitter, by cases\<close>

lemma fit_text_cases [consumes 0, case_names scan fallback]:
  obtains (scan) s ls where "fit_text pm t f max_size min_size mw ml awb = Inr (Some (s, ls))"
      "min_size \<le> s" "s \<le> max_size" "wrap_lines pm t f s mw ml awb = Inr (Some ls)" "ls \<noteq> []"
      "fit_text_scan pm t f mw ml awb (range_desc max_size min_size) = Inr (Some (s, ls))"
  | (fallback) r where
      "fit_text pm t f max_size min_size mw ml awb = Inr (Some (min_size, or_else r [ellipsis_line t]))"
      "wrap_lines pm t f min_size mw ml awb = Inr r"
      "fit_text_scan pm t f mw ml awb (range_desc max_size min_size) = Inr None"
proof (cases "fit_text_scan pm t f mw ml awb (range_desc max_size min_size)")
  case (Inl e)
  then show ?thesis by (simp add: fit_text_scan_no_raise)
next
  case (Inr res)
  show ?thesis
  proof (cases res)
    case None
    obtain r where r: "wrap_lines pm t f min_size mw ml awb = Inr r"
      using wrap_lines_no_raise [of pm t f min_size mw ml awb]
      by (cases "wrap_lines pm t f min_size mw ml awb") auto
    with Inr None have "fit_text pm t f max_size min_size mw ml awb
        = Inr (Some (min_size, or_else r [ellipsis_line t]))"
      by (simp add: fit_text_def then_block_def fit_text_fallback_def)
    then show ?thesis using r Inr None fallback by blast
  next
    case (Some p)
    obtain s ls where p: "p = (s, ls)" by (cases p)
    from fit_text_scan_Some [of pm t f mw ml awb "range_desc max_size min_size" s ls] Inr Some p
    have "min_size \<le> s" "s \<le> max_size" "wrap_lines pm t f s mw ml awb = Inr (Some ls)" "ls \<noteq> []"
      by (simp_all add: set_range_desc)
    moreover from Inr Some p have "fit_text pm t f max_size min_size mw ml awb = Inr (Some (s, ls))"
      by (simp add: fit_text_def then_block_def)
    ultimately show ?thesis using scan Inr Some p by blast
  qed
qed

lemma fit_text_in_box_cases [consumes 0, case_names scan fallback]:
  obtains (scan) s ls where
      "fit_text_in_box pm t f max_size min_size mw ml mh lh awb = Inr (s, ls)"
      "min_size \<le> s" "s \<le> max_size" "wrap_lines pm t f s mw ml awb = Inr (Some ls)" "ls \<noteq> []"
      "needed_h s lh ls \<le> mh"
  | (fallback) r where
      "fit_text_in_box pm t f max_size min_size mw ml mh lh awb
         = Inr (min_size, or_else r [ellipsis_line t])"
      "wrap_lines pm t f min_size mw ml awb = Inr r"
      "fit_text_in_box_scan pm t f mw ml mh lh awb (range_desc max_size min_size) = Inr None"
proof (cases "fit_text_in_box_scan pm t f mw ml mh lh awb (range_desc max_size min_size)")
  case (Inl e)
  then show ?thesis by (simp add: fit_text_in_box_scan_no_raise)
next
  case (Inr res)
  show ?thesis
  proof (cases res)
    case None
    obtain r where r: "wrap_lines pm t f min_size mw ml awb = Inr r"
      using wrap_lines_no_raise [of pm t f min_size mw ml awb]
      by (cases "wrap_lines pm t f min_size mw ml awb") auto
    with Inr None have "fit_text_in_box pm t f max_size min_size mw ml mh lh awb
        = Inr (min_size, or_else r [ellipsis_line t])"
      by (simp add: fit_text_in_box_def)
    then show ?thesis using r Inr None fallback by blast
  next
    case (Some p)
    obtain s ls where p: "p = (s, ls)" by (cases p)
    from fit_text_in_box_scan_Some [of pm t f mw ml mh lh awb "range_desc max_size min_size" s ls]
      Inr Some p
    have "min_size \<le> s" "s \<le> max_size" "wrap_lines pm t f s mw ml awb = Inr (Some ls)" "ls \<noteq> []"
      "needed_h s lh ls \<le> mh"
      by (simp_all add: set_range_desc)
    moreover from Inr Some p have
      "fit_text_in_box pm t f max_size min_size mw ml mh lh awb = Inr (s, ls)"
      by (simp add: fit_text_in_box_def)
    ultimately show ?thesis using scan by blast
  qed
qed


lemma fit_text_above_line_cases [consumes 0, case_names empty scan fallback]:
  obtains (empty) "collapse_ws (strip t) = []"
      "fit_text_above_line pm t f max_size min_size mw ml y_top y_line cl lh awb
         = Inr (min_size, [[]], y_line + cl)"
  | (scan) s ls where "collapse_ws (strip t) \<noteq> []"
      "fit_text_above_line pm t f max_size min_size mw ml y_top y_line cl lh awb
         = Inr (s, ls, (y_line + cl) + descent_of pm f s)"
      "min_size \<le> s" "s \<le> max_size"
      "wrap_lines pm (collapse_ws (strip t)) f s mw ml awb = Inr (Some ls)" "ls \<noteq> []"
      "top_glyph_of pm f s lh ls ((y_line + cl) + descent_of pm f s) \<le> y_top"
  | (fallback) r where "collapse_ws (strip t) \<noteq> []"
      "fit_text_above_line pm t f max_size min_size mw ml y_top y_line cl lh awb
         = Inr (min_size, or_else r [collapse_ws (strip t)],
                clamped_baseline pm f min_size lh (or_else r [collapse_ws (strip t)]) (y_line + cl) y_top)"
      "wrap_lines pm (collapse_ws (strip t)) f min_size mw ml awb = Inr r"
proof (cases "collapse_ws (strip t) = []")
  case True
  then have "fit_text_above_line pm t f max_size min_size mw ml y_top y_line cl lh awb
         = Inr (min_size, [[]], y_line + cl)"
    by (simp add: fit_text_above_line_def)
  with True show ?thesis using empty by blast
next
  case ne: False
  let ?t = "collapse_ws (strip t)"
  show ?thesis
  proof (cases "fit_text_above_line_scan pm ?t f mw ml y_top (y_line + cl) lh awb
                  (range_desc max_size min_size)")
    case (Inl e)
    then show ?thesis by (simp add: fit_text_above_line_scan_no_raise)
  next
    case (Inr res)
    show ?thesis
    proof (cases res)
      case None
      obtain r where r: "wrap_lines pm ?t f min_size mw ml awb = Inr r"
        using wrap_lines_no_raise [of pm ?t f min_size mw ml awb]
        by (cases "wrap_lines pm ?t f min_size mw ml awb") auto
      with Inr None ne have "fit_text_above_line pm t f max_size min_size mw ml y_top y_line cl lh awb
         = Inr (min_size, or_else r [?t], clamped_baseline pm f min_size lh (or_else r [?t]) (y_line + cl) y_top)"
        by (simp add: fit_text_above_line_def clamped_baseline_def Let_def)
      then show ?thesis using r ne fallback by blast
    next
      case (Some p)
      obtain s ls lb where p: "p = (s, ls, lb)" by (cases p)
      from fit_text_above_line_scan_Some [of pm ?t f mw ml y_top "y_line + cl" lh awb
          "range_desc max_size min_size" s ls lb] Inr Some p
      have *: "min_size \<le> s" "s \<le> max_size" "wrap_lines pm ?t f s mw ml awb = Inr (Some ls)" "ls \<noteq> []"
        "lb = (y_line + cl) + descent_of pm f s" "top_glyph_of pm f s lh ls lb \<le> y_top"
        by (auto simp: set_range_desc)
      moreover from Inr Some p ne have
        "fit_text_above_line pm t f max_size min_size mw ml y_top y_line cl lh awb = Inr (s, ls, lb)"
        by (simp add: fit_text_above_line_def)
      ultimately show ?thesis using scan [of s ls] ne by simp
    qed
  qed
qed




section \<open>Properties of the tips conversation\<close>







lemma ctx_ok_state [simp]: "ctx_ok (ctx\<lparr>state := st\<rparr>) = ctx_ok ctx"
  by (simp add: ctx_ok_def)










section \<open>Wrapping in a wider box, without character breaks\<close>















section \<open>Evaluation on concrete inputs\<close>

lemmas eval_simps = wrap_lines_def wrap_loop.simps(2) Let_def strip_def is_space_def collapse_ws_def
  text_width_def demo_metrics_def demo_char_width_def break_long_word_def blw_step_def
  range_desc_def then_block_def or_else_def fit_text_fallback_def ellipsis_line_def upto.simps


section \<open>C1: the geometry of fit_text_above_line\<close>





section \<open>C2: the height bound of fit_text_in_box\<close>





section \<open>C3: the bounds of a successful wrap\<close>

text \<open>
  C3. Whenever \<^verbatim>\<open>wrap_lines\<close> returns a list of lines rather than \<^verbatim>\<open>None\<close>, the list has
  at most \<open>max_lines\<close> lines and the measured width of every line, at that font and size,
  is at most \<open>max_width\<close>; this includes the lines made of the pieces of a broken word.
  No assumption is made on the metrics.
\<close>

theorem wrap_lines_within_bounds:
  assumes "wrap_lines pm t f s mw ml awb = Inr (Some ls)"
  shows "int (length ls) \<le> ml \<and> (\<forall>l\<in>set ls. text_width pm f s l \<le> mw)"
proof -
  let ?t = "collapse_ws (strip t)"
  from assms have ne: "?t \<noteq> []"
    by (auto simp: wrap_lines_def Let_def split: if_splits)
  from assms ne obtain cur lines where
    run: "wrap_loop pm f s mw ml awb (split_sp ?t) [] [] = Inr (Some (cur, lines))"
    by (auto simp: wrap_lines_def Let_def split: sum.splits option.splits if_splits)
  from wrap_loop_lines_fit [OF run words_nonempty [OF ne]]
  have fit: "(\<forall>l\<in>set lines. fits pm f s mw l) \<and> (cur = [] \<or> fits pm f s mw cur)" by simp
  from assms ne run have ls: "ls = (if cur \<noteq> [] then lines @ [cur] else lines)" and "int (length ls) \<le> ml"
    by (auto simp: wrap_lines_def Let_def split: if_splits)
  with fit show ?thesis by (auto simp: fits_def)
qed

text \<open>The text \<^verbatim>\<open>"a bba"\<close> at size 2, width 20 over 2, two lines: the word \<^verbatim>\<open>bba\<close> is broken.\<close>

theorem wrap_lines_within_bounds_witness:
  "wrap_lines demo_metrics [97, 32, 98, 98, 97] ''F'' 2 10 2 True
     = Inr (Some [[97, 32, 98], [98, 97]]) \<and>
   int (length [[97, 32, 98], [98, 97 :: nat]]) \<le> 2 \<and>
   text_width demo_metrics ''F'' 2 [97, 32, 98] \<le> 10 \<and>
   text_width demo_metrics ''F'' 2 [98, 97] \<le> 10"
proof -
  have e: "wrap_lines demo_metrics [97, 32, 98, 98, 97] ''F'' 2 10 2 True
             = Inr (Some [[97, 32, 98], [98, 97]])"
    by (simp add: eval_simps)
  from wrap_lines_within_bounds [OF e] e show ?thesis
    by simp
qed


section \<open>C4: monotonicity of the fitted size\<close>




section \<open>C5: the chosen size lies in the range\<close>

text \<open>
  C5. For every call with \<open>min_size \<le> max_size\<close>, each of \<^verbatim>\<open>fit_text\<close>, \<^verbatim>\<open>fit_text_in_box\<close>
  and \<^verbatim>\<open>fit_text_above_line\<close> returns a size \<open>s\<close> with \<open>min_size \<le> s \<le> max_size\<close>, on every
  path, the fallbacks included.
\<close>

theorem fitters_size_in_range:
  assumes "min_size \<le> max_size"
  shows "(\<exists>s ls. fit_text pm t f max_size min_size mw ml awb = Inr (Some (s, ls)) \<and>
            min_size \<le> s \<and> s \<le> max_size) \<and>
         (\<exists>s ls. fit_text_in_box pm t f max_size min_size mw ml mh lh awb = Inr (s, ls) \<and>
            min_size \<le> s \<and> s \<le> max_size) \<and>
         (\<exists>s ls lb. fit_text_above_line pm t f max_size min_size mw ml y_top y_line cl lh awb
              = Inr (s, ls, lb) \<and> min_size \<le> s \<and> s \<le> max_size)"
proof (intro conjI)
  show "\<exists>s ls. fit_text pm t f max_size min_size mw ml awb = Inr (Some (s, ls)) \<and>
            min_size \<le> s \<and> s \<le> max_size"
    using assms by (cases rule: fit_text_cases [of pm t f max_size min_size mw ml awb]) auto
  show "\<exists>s ls. fit_text_in_box pm t f max_size min_size mw ml mh lh awb = Inr (s, ls) \<and>
            min_size \<le> s \<and> s \<le> max_size"
    using assms
    by (cases rule: fit_text_in_box_cases [of pm t f max_size min_size mw ml mh lh awb]) auto
  show "\<exists>s ls lb. fit_text_above_line pm t f max_size min_size mw ml y_top y_line cl lh awb
              = Inr (s, ls, lb) \<and> min_size \<le> s \<and> s \<le> max_size"
    using assms
    by (cases rule: fit_text_above_line_cases
          [of t pm f max_size min_size mw ml y_top y_line cl lh awb]) auto
qed


text \<open>The text \<^verbatim>\<open>"a bba"\<close> with sizes 1 to 2.\<close>

theorem fitters_size_in_range_witness:
  "(1::int) \<le> 2 \<and>
   (\<exists>s ls. fit_text demo_metrics [97, 32, 98, 98, 97] ''F'' 2 1 10 2 True = Inr (Some (s, ls)) \<and>
            1 \<le> s \<and> s \<le> 2) \<and>
   (\<exists>s ls. fit_text_in_box demo_metrics [97, 32, 98, 98, 97] ''F'' 2 1 10 2 3 1 True = Inr (s, ls) \<and>
            1 \<le> s \<and> s \<le> 2) \<and>
   (\<exists>s ls lb. fit_text_above_line demo_metrics [97, 32, 98, 98, 97] ''F'' 2 1 10 2 3 0 0 1 True
              = Inr (s, ls, lb) \<and> 1 \<le> s \<and> s \<le> 2)"
  using fitters_size_in_range [of 1 2 demo_metrics "[97, 32, 98, 98, 97]" "''F''" 10 2 True 3 1 3 0 0]
  by simp

section \<open>C6: the fitters always return a layout\<close>




section \<open>C7: validation of the tips record\<close>




section \<open>C8: price tiers\<close>

text \<open>
  C8. For every integer price, \<^verbatim>\<open>category_from_price\<close> returns \<^verbatim>\<open>"A"\<close> exactly when
  \<open>price \<le> 20\<close>, \<^verbatim>\<open>"A+"\<close> exactly when \<open>20 < price \<le> 35\<close>, \<^verbatim>\<open>"A++"\<close> exactly when
  \<open>35 < price \<le> 55\<close> and the top tier (the seven Cyrillic letters of the source) exactly
  when \<open>price > 55\<close>; in particular at 20, 21, 35, 36, 55 and 56.
\<close>

theorem category_from_price_tiers:
  "(category_from_price price = ascii ''A'') = (price \<le> 20) \<and>
   (category_from_price price = ascii ''A+'') = (20 < price \<and> price \<le> 35) \<and>
   (category_from_price price = ascii ''A++'') = (35 < price \<and> price \<le> 55) \<and>
   (category_from_price price = [1055, 1056, 1045, 1052, 1048, 1059, 1052]) = (55 < price) \<and>
   category_from_price 20 = ascii ''A'' \<and> category_from_price 21 = ascii ''A+'' \<and>
   category_from_price 35 = ascii ''A+'' \<and> category_from_price 36 = ascii ''A++'' \<and>
   category_from_price 55 = ascii ''A++'' \<and>
   category_from_price 56 = [1055, 1056, 1045, 1052, 1048, 1059, 1052]"
  by (simp add: category_from_price_def ascii_def)

theorem category_from_price_tiers_witness:
  "(category_from_price 35 = ascii ''A+'') = (20 < (35::int) \<and> (35::int) \<le> 35)"
  using category_from_price_tiers [of 35] by blast


section \<open>C9: the second fallback of fit_text\<close>

text \<open>
  C9. The copy of the fallback that follows the \<^verbatim>\<open>return\<close> in \<^verbatim>\<open>fit_text\<close> is never
  reached: on every input \<^verbatim>\<open>fit_text\<close> equals the same body without that trailing block.
\<close>

theorem fit_text_dup_unreachable:
  "fit_text pm t f max_size min_size mw ml awb = fit_text_no_dup pm t f max_size min_size mw ml awb"
  by (simp add: fit_text_def fit_text_no_dup_def then_block_def fit_text_fallback_def
      split: sum.splits option.splits)

text \<open>At an input that reaches the fallback (nothing fits in width 1), where the removed
  block would have been next.\<close>

theorem fit_text_dup_unreachable_witness:
  "fit_text demo_metrics [98, 98] ''F'' 2 1 1 1 False
     = fit_text_no_dup demo_metrics [98, 98] ''F'' 2 1 1 1 False"
  by (rule fit_text_dup_unreachable)


section \<open>C10: administrators stay allowed\<close>

lemma admin_ids_apply_access_op: "admin_ids (apply_access_op am opn) = admin_ids am"
  by (cases opn) (simp_all add: add_user_def del_user_def save_def)

lemma admin_ids_run_access_ops: "admin_ids (run_access_ops am ops) = admin_ids am"
  unfolding run_access_ops_def
  by (induction ops arbitrary: am) (simp_all add: admin_ids_apply_access_op)

text \<open>
  C10. For every access manager, every id \<open>a\<close> in \<open>admin_ids\<close> and every sequence of
  \<^verbatim>\<open>add_user\<close> and \<^verbatim>\<open>del_user\<close> calls from any state, \<^verbatim>\<open>is_allowed(a)\<close> is true in the
  state reached, and \<^verbatim>\<open>add_user(a)\<close> leaves \<open>allowed_ids\<close> unchanged.
\<close>

theorem admin_always_allowed:
  "a \<in> admin_ids am \<Longrightarrow>
     is_allowed (run_access_ops am ops) a \<and> allowed_ids (add_user am a) = allowed_ids am"
  by (simp add: is_allowed_def is_admin_def admin_ids_run_access_ops add_user_def)

text \<open>An administrator who is also in the allowed list, removed from it and added again.\<close>

theorem admin_always_allowed_witness:
  "(1::int) \<in> admin_ids \<lparr>admin_ids = {1}, allowed_ids = {1, 2}, saved_ids = [1, 2]\<rparr> \<and>
   is_allowed (run_access_ops \<lparr>admin_ids = {1}, allowed_ids = {1, 2}, saved_ids = [1, 2]\<rparr>
                 [Del_user 1, Add_user 1, Del_user 2]) 1 \<and>
   allowed_ids (add_user \<lparr>admin_ids = {1}, allowed_ids = {1, 2}, saved_ids = [1, 2]\<rparr> 1)
     = allowed_ids \<lparr>admin_ids = {1}, allowed_ids = {1, 2}, saved_ids = [1, 2]\<rparr>"
proof -
  have h: "(1::int) \<in> admin_ids \<lparr>admin_ids = {1}, allowed_ids = {1, 2}, saved_ids = [1, 2]\<rparr>"
    by simp
  show ?thesis
    by (rule conjI [OF h admin_always_allowed [OF h]])
qed


end
